theory Spec2Isabelle
  imports Main
begin

section \<open>The rule-group configuration\<close>

text \<open>
  \<^verbatim>\<open>LabelsField.tsx\<close> reads the ruler rules of one data source from the store:
  \<^verbatim>\<open>rulerRequest?.result\<close> is a record from namespace to rule groups, a group has
  \<^verbatim>\<open>rules\<close>, and a rule has an optional \<^verbatim>\<open>labels\<close> record from label name to
  label value (both strings). A record is kept as the list of its entries, in the order
  \<^verbatim>\<open>Object.entries\<close> and \<^verbatim>\<open>Object.values\<close> enumerate them.
\<close>

record rule =
  labels :: "(string \<times> string) list option"

record rule_group =
  rules :: "rule list"

type_synonym ruler_rules_config = "(string \<times> rule_group list) list"

record ruler_request =
  loading :: bool
  result :: "ruler_rules_config option"

section \<open>Property reads on a plain object\<close>

text \<open>
  \<^verbatim>\<open>const labelsByKey: Record<string, Set<string>> = {}\<close> is an object literal, so its
  prototype is \<^verbatim>\<open>Object.prototype\<close>. The read \<^verbatim>\<open>labelsByKey[key]\<close> gives the own
  property when there is one, else the member of \<^verbatim>\<open>Object.prototype\<close> of that name, else
  \<^verbatim>\<open>undefined\<close>. The inherited members are functions, and \<^verbatim>\<open>__proto__\<close> reads as
  \<^verbatim>\<open>Object.prototype\<close> itself; none of them has a method \<^verbatim>\<open>add\<close> or an iterator.
  What the code below can observe of such a member is that it is truthy and its
  \<^verbatim>\<open>length\<close> (the arity of the function; \<^verbatim>\<open>Object.prototype\<close> has none, which
  \<^verbatim>\<open>Array.from\<close> reads as 0). The table lists each name with that length.
\<close>

definition object_prototype :: "(string \<times> nat) list" where
  "object_prototype =
     [(''constructor'', 1),
      (''hasOwnProperty'', 1),
      (''isPrototypeOf'', 1),
      (''propertyIsEnumerable'', 1),
      (''toLocaleString'', 0),
      (''toString'', 0),
      (''valueOf'', 0),
      (''__defineGetter__'', 2),
      (''__defineSetter__'', 2),
      (''__lookupGetter__'', 1),
      (''__lookupSetter__'', 1),
      (''__proto__'', 0)]"

datatype js_error = TypeError

text \<open>
  A \<^verbatim>\<open>Set<string>\<close> iterates in insertion order and holds each value once: a list
  without repetition, \<^verbatim>\<open>add\<close> appending a value that is not yet there.
\<close>

type_synonym string_set = "string list"

definition set_add :: "string_set \<Rightarrow> string \<Rightarrow> string_set" where
  "set_add s v = (if v \<in> set s then s else s @ [v])"

type_synonym labels_index = "string \<rightharpoonup> string_set"

datatype property = Undefined | OwnSet string_set | Inherited nat

definition property_get :: "labels_index \<Rightarrow> string \<Rightarrow> property" where
  "property_get obj k =
     (case obj k of
        Some s \<Rightarrow> OwnSet s
      | None \<Rightarrow> (case map_of object_prototype k of
                   Some n \<Rightarrow> Inherited n
                 | None \<Rightarrow> Undefined))"

section \<open>The suggestion index: \<^verbatim>\<open>useGetCustomLabels\<close>\<close>

text \<open>
  \<^verbatim>\<open>Object.values(rulerRulesConfig).flatMap((groups) => groups).flatMap((group) => group.rules)\<close>
\<close>

definition allRules :: "ruler_rules_config \<Rightarrow> rule list" where
  "allRules rulerRulesConfig = concat (map rules (concat (map snd rulerRulesConfig)))"

text \<open>
  The inner \<^verbatim>\<open>forEach\<close> over \<^verbatim>\<open>Object.entries(rule.labels)\<close>. A value is falsy exactly
  when it is the empty string. \<^verbatim>\<open>labelEntry\<close> is truthy for a set and for an inherited
  member; on the latter \<^verbatim>\<open>labelEntry.add(value)\<close> calls \<^verbatim>\<open>undefined\<close> and throws a
  \<^verbatim>\<open>TypeError\<close>, which ends the whole computation.
\<close>

fun forEach_entries :: "(string \<times> string) list \<Rightarrow> labels_index \<Rightarrow> js_error + labels_index" where
  "forEach_entries [] labelsByKey = Inr labelsByKey"
| "forEach_entries ((key, val) # rest) labelsByKey =
     (if val = [] then forEach_entries rest labelsByKey
      else (case property_get labelsByKey key of
              OwnSet labelEntry \<Rightarrow> forEach_entries rest (labelsByKey(key \<mapsto> set_add labelEntry val))
            | Inherited n \<Rightarrow> Inl TypeError
            | Undefined \<Rightarrow> forEach_entries rest (labelsByKey(key \<mapsto> [val]))))"

text \<open>The outer \<^verbatim>\<open>allRules.forEach\<close>, with its guard \<^verbatim>\<open>if (rule.labels)\<close>.\<close>

fun forEach_rules :: "rule list \<Rightarrow> labels_index \<Rightarrow> js_error + labels_index" where
  "forEach_rules [] labelsByKey = Inr labelsByKey"
| "forEach_rules (r # rest) labelsByKey =
     (case labels r of
        None \<Rightarrow> forEach_rules rest labelsByKey
      | Some ls \<Rightarrow> (case forEach_entries ls labelsByKey of
                     Inl e \<Rightarrow> Inl e
                   | Inr labelsByKey' \<Rightarrow> forEach_rules rest labelsByKey'))"

text \<open>
  The callback of \<^verbatim>\<open>useMemo\<close>: it starts from a fresh empty object on every run.
  \<^verbatim>\<open>rulerRequest\<close> is \<^verbatim>\<open>undefined\<close> while the store has no request for the data source.
\<close>

definition labelsByKeyResult :: "ruler_request option \<Rightarrow> js_error + labels_index" where
  "labelsByKeyResult rulerRequest =
     (let rulerRulesConfig = (case rulerRequest of None \<Rightarrow> None | Some req \<Rightarrow> result req)
      in case rulerRulesConfig of
           None \<Rightarrow> Inr Map.empty
         | Some cfg \<Rightarrow> forEach_rules (allRules cfg) Map.empty)"

text \<open>The request a configuration arrives in, once loaded.\<close>

definition loaded :: "ruler_rules_config \<Rightarrow> ruler_request option" where
  "loaded cfg = Some \<lparr>loading = False, result = Some cfg\<rparr>"

section \<open>The index as objects in a store\<close>

text \<open>
  In the running program the index and its sets are objects, held by reference and
  changed in place: \<^verbatim>\<open>labelEntry.add(value)\<close> changes the set that \<^verbatim>\<open>labelsByKey[key]\<close>
  refers to, and \<^verbatim>\<open>labelsByKey[key] = new Set([value])\<close> changes the index object. The
  store holds every index object built so far (its own properties, name and reference
  of a set, in the order of their creation) and every set; a reference is a position in
  the store. An object literal and \<^verbatim>\<open>new Set\<close> take the next free position.
\<close>

record heap =
  index_objs :: "(string \<times> nat) list list"
  set_objs :: "string_set list"

datatype reference = RefUndefined | RefSet nat | RefInherited nat

text \<open>\<^verbatim>\<open>{}\<close>\<close>

definition h_new_object :: "heap \<Rightarrow> nat \<times> heap" where
  "h_new_object h = (length (index_objs h), h\<lparr>index_objs := index_objs h @ [[]]\<rparr>)"

text \<open>\<^verbatim>\<open>new Set([value])\<close>\<close>

definition h_new_Set :: "heap \<Rightarrow> string \<Rightarrow> nat \<times> heap" where
  "h_new_Set h v = (length (set_objs h), h\<lparr>set_objs := set_objs h @ [[v]]\<rparr>)"

text \<open>\<^verbatim>\<open>labelEntry.add(value)\<close>\<close>

definition h_Set_add :: "heap \<Rightarrow> nat \<Rightarrow> string \<Rightarrow> heap" where
  "h_Set_add h labelEntry v =
     h\<lparr>set_objs := (set_objs h)[labelEntry := set_add (set_objs h ! labelEntry) v]\<rparr>"

text \<open>\<^verbatim>\<open>labelsByKey[key]\<close>\<close>

definition h_property_get :: "heap \<Rightarrow> nat \<Rightarrow> string \<Rightarrow> reference" where
  "h_property_get h obj k =
     (case map_of (index_objs h ! obj) k of
        Some s \<Rightarrow> RefSet s
      | None \<Rightarrow> (case map_of object_prototype k of
                   Some n \<Rightarrow> RefInherited n
                 | None \<Rightarrow> RefUndefined))"

text \<open>
  \<^verbatim>\<open>labelsByKey[key] = s\<close>: an own property of that name takes the new reference, else
  the property is added after the others.
\<close>

fun own_assign :: "(string \<times> nat) list \<Rightarrow> string \<Rightarrow> nat \<Rightarrow> (string \<times> nat) list" where
  "own_assign [] k s = [(k, s)]"
| "own_assign ((k', s') # props) k s =
     (if k' = k then (k, s) # props else (k', s') # own_assign props k s)"

definition h_property_set :: "heap \<Rightarrow> nat \<Rightarrow> string \<Rightarrow> nat \<Rightarrow> heap" where
  "h_property_set h obj k s =
     h\<lparr>index_objs := (index_objs h)[obj := own_assign (index_objs h ! obj) k s]\<rparr>"

text \<open>The two loops and the callback again, on the store; \<open>labelsByKey\<close> is a reference.\<close>

fun h_forEach_entries :: "(string \<times> string) list \<Rightarrow> nat \<Rightarrow> heap \<Rightarrow> js_error + heap" where
  "h_forEach_entries [] labelsByKey h = Inr h"
| "h_forEach_entries ((key, val) # rest) labelsByKey h =
     (if val = [] then h_forEach_entries rest labelsByKey h
      else (case h_property_get h labelsByKey key of
              RefSet labelEntry \<Rightarrow> h_forEach_entries rest labelsByKey (h_Set_add h labelEntry val)
            | RefInherited n \<Rightarrow> Inl TypeError
            | RefUndefined \<Rightarrow>
                h_forEach_entries rest labelsByKey
                  (h_property_set (snd (h_new_Set h val)) labelsByKey key (fst (h_new_Set h val)))))"

fun h_forEach_rules :: "rule list \<Rightarrow> nat \<Rightarrow> heap \<Rightarrow> js_error + heap" where
  "h_forEach_rules [] labelsByKey h = Inr h"
| "h_forEach_rules (r # rest) labelsByKey h =
     (case labels r of
        None \<Rightarrow> h_forEach_rules rest labelsByKey h
      | Some ls \<Rightarrow> (case h_forEach_entries ls labelsByKey h of
                     Inl e \<Rightarrow> Inl e
                   | Inr h' \<Rightarrow> h_forEach_rules rest labelsByKey h'))"

text \<open>
  The callback returns the reference of the index it built, with the store as it has
  left it; when it throws, nothing it did can be reached.
\<close>

definition h_labelsByKeyResult :: "ruler_request option \<Rightarrow> heap \<Rightarrow> js_error + nat \<times> heap" where
  "h_labelsByKeyResult rulerRequest h =
     (let labelsByKey = fst (h_new_object h);
          h0 = snd (h_new_object h);
          rulerRulesConfig = (case rulerRequest of None \<Rightarrow> None | Some req \<Rightarrow> result req)
      in case rulerRulesConfig of
           None \<Rightarrow> Inr (labelsByKey, h0)
         | Some cfg \<Rightarrow> (case h_forEach_rules (allRules cfg) labelsByKey h0 of
                         Inl e \<Rightarrow> Inl e
                       | Inr h' \<Rightarrow> Inr (labelsByKey, h')))"

text \<open>What an index object holds: for each of its keys the content of the set referred to.\<close>

definition read_index :: "heap \<Rightarrow> nat \<Rightarrow> labels_index" where
  "read_index h obj =
     (\<lambda>k. case map_of (index_objs h ! obj) k of None \<Rightarrow> None | Some s \<Rightarrow> Some (set_objs h ! s))"

definition read_outcome :: "js_error + nat \<times> heap \<Rightarrow> js_error + labels_index" where
  "read_outcome r = (case r of Inl e \<Rightarrow> Inl e | Inr (obj, h) \<Rightarrow> Inr (read_index h obj))"

section \<open>Options of the dropdowns\<close>

text \<open>
  \<^verbatim>\<open>SelectableValue<string>\<close> has optional fields \<^verbatim>\<open>label\<close> and \<^verbatim>\<open>value\<close>.
  \<^verbatim>\<open>mapLabelsToOptions(items = [])\<close> is \<^verbatim>\<open>Array.from(items, (item) => ({ label: item, value: item }))\<close>:
  the default \<^verbatim>\<open>[]\<close> replaces \<^verbatim>\<open>undefined\<close> only; a set is iterated; an inherited member
  is not iterable, so \<^verbatim>\<open>Array.from\<close> takes it as array-like and maps \<^verbatim>\<open>length\<close> items,
  each of them \<^verbatim>\<open>undefined\<close>.
\<close>

record selectable_value =
  opt_label :: "string option"
  opt_value :: "string option"

definition mapLabelsToOptions :: "property \<Rightarrow> selectable_value list" where
  "mapLabelsToOptions items =
     (case items of
        Undefined \<Rightarrow> []
      | OwnSet s \<Rightarrow> map (\<lambda>item. \<lparr>opt_label = Some item, opt_value = Some item\<rparr>) s
      | Inherited n \<Rightarrow> replicate n \<lparr>opt_label = None, opt_value = None\<rparr>)"

definition getValuesForLabel :: "labels_index \<Rightarrow> string \<Rightarrow> selectable_value list" where
  "getValuesForLabel labelsByKey key = mapLabelsToOptions (property_get labelsByKey key)"

section \<open>The label rows: \<^verbatim>\<open>LabelsWithSuggestions\<close>\<close>

text \<open>
  The component holds the form's \<^verbatim>\<open>labels\<close> array (\<^verbatim>\<open>watch('labels')\<close>, the rows of
  \<^verbatim>\<open>useFieldArray\<close>) and \<^verbatim>\<open>selectedKey\<close>, initially the empty string. It renders one
  row per entry, so a handler exists for an index only while the index is below the
  length of the array: a handler of a row that is not there is \<open>None\<close>. The form
  library's \<^verbatim>\<open>setValue\<close> writes one field of one entry, \<^verbatim>\<open>remove\<close> deletes one row
  and \<^verbatim>\<open>append\<close> adds one at the end.
\<close>

record label_entry =
  entry_key :: string
  entry_value :: string

record labels_form =
  form_labels :: "label_entry list"
  selectedKey :: string

definition initial_form :: "label_entry list \<Rightarrow> labels_form" where
  "initial_form ls = \<lparr>form_labels = ls, selectedKey = []\<rparr>"

text \<open>
  \<^verbatim>\<open>onChange\<close> of the key dropdown:
  \<^verbatim>\<open>setValue(`labels.${index}.key`, newValue.value); setSelectedKey(newValue.value)\<close>.
\<close>

definition onChange_key :: "labels_form \<Rightarrow> nat \<Rightarrow> string \<Rightarrow> labels_form option" where
  "onChange_key st index newValue =
     (if index < length (form_labels st)
      then Some (st\<lparr>form_labels := (form_labels st)[index := (form_labels st ! index)\<lparr>entry_key := newValue\<rparr>],
                     selectedKey := newValue\<rparr>)
      else None)"

text \<open>\<^verbatim>\<open>onChange\<close> of the value dropdown: \<^verbatim>\<open>setValue(`labels.${index}.value`, newValue.value)\<close>.\<close>

definition onChange_value :: "labels_form \<Rightarrow> nat \<Rightarrow> string \<Rightarrow> labels_form option" where
  "onChange_value st index newValue =
     (if index < length (form_labels st)
      then Some (st\<lparr>form_labels := (form_labels st)[index := (form_labels st ! index)\<lparr>entry_value := newValue\<rparr>]\<rparr>)
      else None)"

text \<open>\<^verbatim>\<open>onOpenMenu\<close> of the value dropdown: \<^verbatim>\<open>setSelectedKey(labels[index].key)\<close>.\<close>

definition onOpenMenu :: "labels_form \<Rightarrow> nat \<Rightarrow> labels_form option" where
  "onOpenMenu st index =
     (if index < length (form_labels st)
      then Some (st\<lparr>selectedKey := entry_key (form_labels st ! index)\<rparr>)
      else None)"

text \<open>\<^verbatim>\<open>RemoveButton\<close>: \<^verbatim>\<open>remove(index)\<close>. \<^verbatim>\<open>AddButton\<close>: \<^verbatim>\<open>append({ key: '', value: '' })\<close>.\<close>

definition remove_label :: "labels_form \<Rightarrow> nat \<Rightarrow> labels_form option" where
  "remove_label st index =
     (if index < length (form_labels st)
      then Some (st\<lparr>form_labels := take index (form_labels st) @ drop (Suc index) (form_labels st)\<rparr>)
      else None)"

definition append_label :: "labels_form \<Rightarrow> labels_form" where
  "append_label st = st\<lparr>form_labels := form_labels st @ [\<lparr>entry_key = [], entry_value = []\<rparr>]\<rparr>"

text \<open>Every handler the component installs, as one event.\<close>

datatype event =
    KeyChange nat string
  | ValueChange nat string
  | OpenMenu nat
  | Remove nat
  | Add

fun handle :: "labels_form \<Rightarrow> event \<Rightarrow> labels_form option" where
  "handle st (KeyChange index newValue) = onChange_key st index newValue"
| "handle st (ValueChange index newValue) = onChange_value st index newValue"
| "handle st (OpenMenu index) = onOpenMenu st index"
| "handle st (Remove index) = remove_label st index"
| "handle st Add = Some (append_label st)"

text \<open>
  \<^verbatim>\<open>const values = useMemo(() => getValuesForLabel(selectedKey), [selectedKey, getValuesForLabel])\<close>:
  the options of every value dropdown, from the index the hook returned.
\<close>

definition current_values :: "labels_index \<Rightarrow> labels_form \<Rightarrow> selectable_value list" where
  "current_values labelsByKey st = getValuesForLabel labelsByKey (selectedKey st)"

section \<open>Validation of a row\<close>

text \<open>
  Both components register the key field with
  \<^verbatim>\<open>required: { value: Boolean(labels[index]?.value), message: 'Required.' }\<close> and the value
  field with \<^verbatim>\<open>required: { value: Boolean(labels[index]?.key), message: 'Required.' }\<close>
  (\<^verbatim>\<open>LabelsWithoutSuggestions\<close> writes \<^verbatim>\<open>!!\<close> for \<^verbatim>\<open>Boolean\<close>). \<^verbatim>\<open>labels[index]?.value\<close> is
  \<^verbatim>\<open>undefined\<close> past the end of the array; \<^verbatim>\<open>Boolean\<close> is false on \<^verbatim>\<open>undefined\<close> and on
  the empty string only.
\<close>

record required_rule =
  required_value :: bool
  required_message :: string

definition Boolean :: "string option \<Rightarrow> bool" where
  "Boolean x = (case x of None \<Rightarrow> False | Some s \<Rightarrow> s \<noteq> [])"

definition field_key :: "label_entry list \<Rightarrow> nat \<Rightarrow> string option" where
  "field_key ls index = (if index < length ls then Some (entry_key (ls ! index)) else None)"

definition field_value :: "label_entry list \<Rightarrow> nat \<Rightarrow> string option" where
  "field_value ls index = (if index < length ls then Some (entry_value (ls ! index)) else None)"

definition register_key :: "label_entry list \<Rightarrow> nat \<Rightarrow> required_rule" where
  "register_key ls index =
     \<lparr>required_value = Boolean (field_value ls index), required_message = ''Required.''\<rparr>"

definition register_value :: "label_entry list \<Rightarrow> nat \<Rightarrow> required_rule" where
  "register_value ls index =
     \<lparr>required_value = Boolean (field_key ls index), required_message = ''Required.''\<rparr>"

text \<open>
  Modelled from the spec: the form library that applies a registered rule (react-hook-form)
  is not part of the repository. Its \<^verbatim>\<open>required\<close> rule reports the rule's message for a
  field that is required and whose value is missing or the empty string, and nothing
  otherwise; the spec's \<^verbatim>\<open>validateKey\<close> and \<^verbatim>\<open>validateValue\<close> are that rule on the key
  and on the value field of a row.
\<close>

definition check_required :: "required_rule \<Rightarrow> string option \<Rightarrow> string option" where
  "check_required rule fieldValue =
     (if required_value rule \<and> \<not> Boolean fieldValue then Some (required_message rule) else None)"

definition validateKey :: "label_entry list \<Rightarrow> nat \<Rightarrow> string option" where
  "validateKey ls index = check_required (register_key ls index) (field_key ls index)"

definition validateValue :: "label_entry list \<Rightarrow> nat \<Rightarrow> string option" where
  "validateValue ls index = check_required (register_value ls index) (field_value ls index)"

text \<open>\<^verbatim>\<open>invalid={Boolean(errors.labels?.[index]?.key?.message)}\<close>\<close>

definition invalid :: "string option \<Rightarrow> bool" where
  "invalid message = Boolean message"

section \<open>Vocabulary of the statements\<close>

text \<open>The values an index holds under a key, as a set; empty when the key has no entry.\<close>

definition set_of :: "labels_index \<Rightarrow> string \<Rightarrow> string set" where
  "set_of idx k = (case idx k of None \<Rightarrow> {} | Some s \<Rightarrow> set s)"

text \<open>All label pairs of a list of rules, in the order the two loops visit them.\<close>

definition entries_of :: "rule list \<Rightarrow> (string \<times> string) list" where
  "entries_of rs = concat (map (\<lambda>r. case labels r of None \<Rightarrow> [] | Some ls \<Rightarrow> ls) rs)"

text \<open>No entry of the index is an empty set.\<close>

definition nonempty_sets :: "labels_index \<Rightarrow> bool" where
  "nonempty_sets idx = (\<forall>k s. idx k = Some s \<longrightarrow> s \<noteq> [])"

text \<open>No entry of the index holds a value twice.\<close>

definition distinct_sets :: "labels_index \<Rightarrow> bool" where
  "distinct_sets idx = (\<forall>k s. idx k = Some s \<longrightarrow> distinct s)"

text \<open>
  The index object at \<open>obj\<close> refers only to sets of the store made after the first \<open>n\<close>,
  and to a different set under each key.
\<close>

definition own_sets :: "nat \<Rightarrow> nat \<Rightarrow> heap \<Rightarrow> bool" where
  "own_sets obj n h =
     (obj < length (index_objs h) \<and> n \<le> length (set_objs h) \<and>
      (\<forall>k s. map_of (index_objs h ! obj) k = Some s \<longrightarrow> n \<le> s \<and> s < length (set_objs h)) \<and>
      (\<forall>k k' s. map_of (index_objs h ! obj) k = Some s \<longrightarrow>
                 map_of (index_objs h ! obj) k' = Some s \<longrightarrow> k = k'))"

text \<open>
  From \<open>h\<close> to \<open>h'\<close> no index object was made, the index objects before \<open>obj\<close> and the
  first \<open>n\<close> sets are as they were, and no set was lost.
\<close>

definition unchanged_below :: "nat \<Rightarrow> nat \<Rightarrow> heap \<Rightarrow> heap \<Rightarrow> bool" where
  "unchanged_below obj n h h' =
     (length (index_objs h') = length (index_objs h) \<and>
      take obj (index_objs h') = take obj (index_objs h) \<and>
      take n (set_objs h') = take n (set_objs h) \<and>
      length (set_objs h) \<le> length (set_objs h'))"

section \<open>The two loops\<close>

lemma forEach_entries_append:
  "forEach_entries (xs @ ys) idx =
     (case forEach_entries xs idx of Inl e \<Rightarrow> Inl e | Inr idx' \<Rightarrow> forEach_entries ys idx')"
proof (induction xs arbitrary: idx)
  case Nil
  then show ?case by simp
next
  case (Cons p xs)
  obtain key val where p: "p = (key, val)" by (cases p)
  show ?case
    unfolding p by (simp add: Cons.IH del: fun_upd_apply split: property.splits)
qed

lemma forEach_rules_entries:
  "forEach_rules rs idx = forEach_entries (entries_of rs) idx"
proof (induction rs arbitrary: idx)
  case Nil
  then show ?case by (simp add: entries_of_def)
next
  case (Cons r rs)
  have e: "entries_of (r # rs) = (case labels r of None \<Rightarrow> [] | Some ls \<Rightarrow> ls) @ entries_of rs"
    by (simp add: entries_of_def)
  show ?case
    unfolding e forEach_entries_append using Cons.IH
    by (simp split: option.splits sum.splits)
qed

lemma set_add_nonempty: "set_add s v \<noteq> []"
  by (auto simp: set_add_def)

lemma set_set_add: "set (set_add s v) = insert v (set s)"
  by (auto simp: set_add_def)

lemma distinct_set_add: "distinct s \<Longrightarrow> distinct (set_add s v)"
  by (auto simp: set_add_def)

lemma nonempty_sets_upd: "nonempty_sets idx \<Longrightarrow> s \<noteq> [] \<Longrightarrow> nonempty_sets (idx(k \<mapsto> s))"
  by (simp add: nonempty_sets_def)

lemma forEach_entries_nonempty:
  "forEach_entries ps idx = Inr idx' \<Longrightarrow> nonempty_sets idx \<Longrightarrow> nonempty_sets idx'"
proof (induction ps arbitrary: idx)
  case Nil
  then show ?case by simp
next
  case (Cons p rest)
  obtain key val where p: "p = (key, val)" by (cases p)
  show ?case
  proof (cases "val = []")
    case True
    with Cons.prems p have "forEach_entries rest idx = Inr idx'" by simp
    with Cons.IH Cons.prems(2) show ?thesis by blast
  next
    case False
    show ?thesis
    proof (cases "property_get idx key")
      case Undefined
      with False Cons.prems(1) p
      have "forEach_entries rest (idx(key \<mapsto> [val])) = Inr idx'" by simp
      moreover have "nonempty_sets (idx(key \<mapsto> [val]))"
        using Cons.prems(2) by (simp add: nonempty_sets_upd)
      ultimately show ?thesis using Cons.IH by blast
    next
      case (OwnSet s)
      with False Cons.prems(1) p
      have "forEach_entries rest (idx(key \<mapsto> set_add s val)) = Inr idx'" by simp
      moreover have "nonempty_sets (idx(key \<mapsto> set_add s val))"
        using Cons.prems(2) by (simp add: nonempty_sets_upd set_add_nonempty)
      ultimately show ?thesis using Cons.IH by blast
    next
      case (Inherited n)
      with False Cons.prems(1) p show ?thesis by simp
    qed
  qed
qed

lemma property_get_OwnSet: "property_get idx k = OwnSet s \<longleftrightarrow> idx k = Some s"
  by (auto simp: property_get_def split: option.splits)

lemma property_get_Undefined:
  "property_get idx k = Undefined \<longleftrightarrow> idx k = None \<and> k \<notin> fst ` set object_prototype"
  by (auto simp: property_get_def map_of_eq_None_iff [symmetric] split: option.splits)

lemma property_get_Inherited:
  "(\<exists>n. property_get idx k = Inherited n) \<longleftrightarrow> idx k = None \<and> k \<in> fst ` set object_prototype"
proof -
  have "k \<in> fst ` set object_prototype \<longleftrightarrow> (\<exists>n. map_of object_prototype k = Some n)"
    using map_of_eq_None_iff [of object_prototype k] by auto
  then show ?thesis
    by (auto simp: property_get_def split: option.splits)
qed

lemma distinct_sets_upd: "distinct_sets idx \<Longrightarrow> distinct s \<Longrightarrow> distinct_sets (idx(k \<mapsto> s))"
  by (simp add: distinct_sets_def)

lemma forEach_entries_distinct:
  "forEach_entries ps idx = Inr idx' \<Longrightarrow> distinct_sets idx \<Longrightarrow> distinct_sets idx'"
proof (induction ps arbitrary: idx)
  case Nil
  then show ?case by simp
next
  case (Cons p rest)
  obtain key val where p: "p = (key, val)" by (cases p)
  show ?case
  proof (cases "val = []")
    case True
    with Cons.prems p have "forEach_entries rest idx = Inr idx'" by simp
    with Cons.IH Cons.prems(2) show ?thesis by blast
  next
    case False
    show ?thesis
    proof (cases "property_get idx key")
      case Undefined
      with False Cons.prems(1) p
      have "forEach_entries rest (idx(key \<mapsto> [val])) = Inr idx'" by simp
      moreover have "distinct_sets (idx(key \<mapsto> [val]))"
        using Cons.prems(2) by (simp add: distinct_sets_upd)
      ultimately show ?thesis using Cons.IH by blast
    next
      case (OwnSet s)
      then have "idx key = Some s" by (simp add: property_get_OwnSet)
      with Cons.prems(2) have "distinct s" by (simp add: distinct_sets_def)
      then have "distinct_sets (idx(key \<mapsto> set_add s val))"
        using Cons.prems(2) by (simp add: distinct_sets_upd distinct_set_add)
      moreover from OwnSet False Cons.prems(1) p
      have "forEach_entries rest (idx(key \<mapsto> set_add s val)) = Inr idx'" by simp
      ultimately show ?thesis using Cons.IH by blast
    next
      case (Inherited n)
      with False Cons.prems(1) p show ?thesis by simp
    qed
  qed
qed

lemma set_of_upd: "set_of (idx(k \<mapsto> s)) k' = (if k' = k then set s else set_of idx k')"
  by (simp add: set_of_def)

lemma forEach_entries_set_of:
  "forEach_entries ps idx = Inr idx' \<Longrightarrow>
     set_of idx' k = set_of idx k \<union> {v. (k, v) \<in> set ps \<and> v \<noteq> []}"
proof (induction ps arbitrary: idx)
  case Nil
  then show ?case by simp
next
  case (Cons p rest)
  obtain key val where p: "p = (key, val)" by (cases p)
  show ?case
  proof (cases "val = []")
    case True
    with Cons.prems p have "forEach_entries rest idx = Inr idx'" by simp
    then have "set_of idx' k = set_of idx k \<union> {v. (k, v) \<in> set rest \<and> v \<noteq> []}"
      by (rule Cons.IH)
    with True p show ?thesis by auto
  next
    case False
    show ?thesis
    proof (cases "property_get idx key")
      case Undefined
      then have none: "set_of idx key = {}"
        by (simp add: property_get_Undefined set_of_def)
      from Undefined False Cons.prems(1) p
      have "forEach_entries rest (idx(key \<mapsto> [val])) = Inr idx'" by simp
      then have "set_of idx' k =
          set_of (idx(key \<mapsto> [val])) k \<union> {v. (k, v) \<in> set rest \<and> v \<noteq> []}"
        by (rule Cons.IH)
      with False p none show ?thesis by (auto simp: set_of_upd split: if_splits)
    next
      case (OwnSet s)
      then have some: "set_of idx key = set s"
        by (simp add: property_get_OwnSet set_of_def)
      from OwnSet False Cons.prems(1) p
      have "forEach_entries rest (idx(key \<mapsto> set_add s val)) = Inr idx'" by simp
      then have "set_of idx' k =
          set_of (idx(key \<mapsto> set_add s val)) k \<union> {v. (k, v) \<in> set rest \<and> v \<noteq> []}"
        by (rule Cons.IH)
      with False p some show ?thesis by (auto simp: set_of_upd set_set_add split: if_splits)
    next
      case (Inherited n)
      with False Cons.prems(1) p show ?thesis by simp
    qed
  qed
qed


lemma dom_set_of: "nonempty_sets idx \<Longrightarrow> (idx k = None) = (set_of idx k = {})"
  by (auto simp: nonempty_sets_def set_of_def split: option.splits)

lemma forEach_entries_succeeds:
  "(\<exists>idx'. forEach_entries ps idx = Inr idx') \<longleftrightarrow>
     (\<forall>(k, v) \<in> set ps. v \<noteq> [] \<longrightarrow> k \<in> dom idx \<or> k \<notin> fst ` set object_prototype)"
proof (induction ps arbitrary: idx)
  case Nil
  then show ?case by simp
next
  case (Cons p rest)
  obtain key val where p: "p = (key, val)" by (cases p)
  show ?case
  proof (cases "val = []")
    case True
    with p Cons.IH [of idx] show ?thesis by simp
  next
    case False
    show ?thesis
    proof (cases "property_get idx key")
      case Undefined
      then have k: "idx key = None" "key \<notin> fst ` set object_prototype"
        by (simp_all add: property_get_Undefined)
      have "(\<exists>idx'. forEach_entries (p # rest) idx = Inr idx') \<longleftrightarrow>
            (\<exists>idx'. forEach_entries rest (idx(key \<mapsto> [val])) = Inr idx')"
        using p False Undefined by simp
      also have "\<dots> \<longleftrightarrow> (\<forall>(k, v) \<in> set rest. v \<noteq> [] \<longrightarrow>
            k \<in> dom (idx(key \<mapsto> [val])) \<or> k \<notin> fst ` set object_prototype)"
        by (rule Cons.IH)
      also have "\<dots> \<longleftrightarrow> (\<forall>(k, v) \<in> set (p # rest). v \<noteq> [] \<longrightarrow>
            k \<in> dom idx \<or> k \<notin> fst ` set object_prototype)"
        using p k by auto
      finally show ?thesis .
    next
      case (OwnSet s)
      then have k: "idx key = Some s" by (simp add: property_get_OwnSet)
      have "(\<exists>idx'. forEach_entries (p # rest) idx = Inr idx') \<longleftrightarrow>
            (\<exists>idx'. forEach_entries rest (idx(key \<mapsto> set_add s val)) = Inr idx')"
        using p False OwnSet by simp
      also have "\<dots> \<longleftrightarrow> (\<forall>(k, v) \<in> set rest. v \<noteq> [] \<longrightarrow>
            k \<in> dom (idx(key \<mapsto> set_add s val)) \<or> k \<notin> fst ` set object_prototype)"
        by (rule Cons.IH)
      also have "\<dots> \<longleftrightarrow> (\<forall>(k, v) \<in> set (p # rest). v \<noteq> [] \<longrightarrow>
            k \<in> dom idx \<or> k \<notin> fst ` set object_prototype)"
        using p k by auto
      finally show ?thesis .
    next
      case (Inherited n)
      then have "idx key = None \<and> key \<in> fst ` set object_prototype"
        using property_get_Inherited [of idx key] by blast
      then have "\<not> (\<forall>(k, v) \<in> set (p # rest). v \<noteq> [] \<longrightarrow>
            k \<in> dom idx \<or> k \<notin> fst ` set object_prototype)"
        using p False by auto
      moreover have "forEach_entries (p # rest) idx = Inl TypeError"
        using p False Inherited by simp
      ultimately show ?thesis by simp
    qed
  qed
qed

lemma entries_of_Cons:
  "entries_of (r # rs) = (case labels r of None \<Rightarrow> [] | Some ls \<Rightarrow> ls) @ entries_of rs"
  by (simp add: entries_of_def)

lemma set_entries_of:
  "set (entries_of rs) = {(k, v). \<exists>r \<in> set rs. \<exists>ls. labels r = Some ls \<and> (k, v) \<in> set ls}"
proof (induction rs)
  case Nil
  show ?case by (simp add: entries_of_def)
next
  case (Cons r rs)
  show ?case
  proof (cases "labels r")
    case None
    then show ?thesis by (auto simp: entries_of_Cons Cons.IH)
  next
    case (Some ls)
    then show ?thesis by (auto simp: entries_of_Cons Cons.IH)
  qed
qed

lemma nonempty_sets_empty: "nonempty_sets Map.empty"
  by (simp add: nonempty_sets_def)

lemma labelsByKeyResult_loaded:
  "labelsByKeyResult (loaded cfg) = forEach_entries (entries_of (allRules cfg)) Map.empty"
  by (simp add: labelsByKeyResult_def loaded_def forEach_rules_entries)

lemma labelsByKeyResult_membership:
  assumes "labelsByKeyResult (loaded cfg) = Inr idx"
  shows "set_of idx k =
           {v. v \<noteq> [] \<and> (\<exists>r \<in> set (allRules cfg). \<exists>ls. labels r = Some ls \<and> (k, v) \<in> set ls)}"
    and "(k \<in> dom idx) =
           (\<exists>v. v \<noteq> [] \<and> (\<exists>r \<in> set (allRules cfg). \<exists>ls. labels r = Some ls \<and> (k, v) \<in> set ls))"
proof -
  from assms have run: "forEach_entries (entries_of (allRules cfg)) Map.empty = Inr idx"
    by (simp add: labelsByKeyResult_loaded)
  have "set_of idx k = set_of Map.empty k \<union> {v. (k, v) \<in> set (entries_of (allRules cfg)) \<and> v \<noteq> []}"
    using run by (rule forEach_entries_set_of)
  then show m: "set_of idx k =
           {v. v \<noteq> [] \<and> (\<exists>r \<in> set (allRules cfg). \<exists>ls. labels r = Some ls \<and> (k, v) \<in> set ls)}"
    by (auto simp: set_of_def set_entries_of)
  have "nonempty_sets idx"
    using run nonempty_sets_empty by (rule forEach_entries_nonempty)
  then have "(k \<in> dom idx) = (set_of idx k \<noteq> {})"
    using dom_set_of [of idx k] by auto
  with m show "(k \<in> dom idx) =
           (\<exists>v. v \<noteq> [] \<and> (\<exists>r \<in> set (allRules cfg). \<exists>ls. labels r = Some ls \<and> (k, v) \<in> set ls))"
    by auto
qed

lemma labelsByKeyResult_distinct:
  assumes "labelsByKeyResult (loaded cfg) = Inr idx" and "idx k = Some s"
  shows "distinct s"
proof -
  from assms(1) have "forEach_entries (entries_of (allRules cfg)) Map.empty = Inr idx"
    by (simp add: labelsByKeyResult_loaded)
  moreover have "distinct_sets Map.empty" by (simp add: distinct_sets_def)
  ultimately have "distinct_sets idx" by (rule forEach_entries_distinct)
  with assms(2) show ?thesis by (simp add: distinct_sets_def)
qed

lemma labelsByKeyResult_throws_iff:
  "labelsByKeyResult (loaded cfg) = Inl TypeError \<longleftrightarrow>
     (\<exists>r \<in> set (allRules cfg). \<exists>ls k v. labels r = Some ls \<and> (k, v) \<in> set ls \<and> v \<noteq> [] \<and>
        k \<in> fst ` set object_prototype)"
proof -
  have "labelsByKeyResult (loaded cfg) = Inl TypeError \<longleftrightarrow>
        \<not> (\<exists>idx'. forEach_entries (entries_of (allRules cfg)) Map.empty = Inr idx')"
    unfolding labelsByKeyResult_loaded
    by (cases "forEach_entries (entries_of (allRules cfg)) Map.empty") (auto intro: js_error.exhaust)
  also have "\<dots> \<longleftrightarrow> \<not> (\<forall>(k, v) \<in> set (entries_of (allRules cfg)). v \<noteq> [] \<longrightarrow>
        k \<in> dom (Map.empty :: labels_index) \<or> k \<notin> fst ` set object_prototype)"
    unfolding forEach_entries_succeeds ..
  also have "\<dots> \<longleftrightarrow> (\<exists>r \<in> set (allRules cfg). \<exists>ls k v. labels r = Some ls \<and> (k, v) \<in> set ls \<and> v \<noteq> [] \<and>
        k \<in> fst ` set object_prototype)"
    unfolding set_entries_of by (auto; force)
  finally show ?thesis .
qed

section \<open>The store\<close>

lemma map_of_own_assign: "map_of (own_assign props k s) = (map_of props)(k \<mapsto> s)"
  by (induction props k s rule: own_assign.induct) auto

lemma unchanged_below_refl: "unchanged_below obj n h h"
  by (simp add: unchanged_below_def)

lemma unchanged_below_trans:
  "unchanged_below obj n h h' \<Longrightarrow> unchanged_below obj n h' h'' \<Longrightarrow> unchanged_below obj n h h''"
  by (simp add: unchanged_below_def)

lemma h_property_get_RefSet:
  "h_property_get h obj k = RefSet s \<longleftrightarrow> map_of (index_objs h ! obj) k = Some s"
  by (auto simp: h_property_get_def split: option.splits)

lemma h_property_get_read_index:
  "property_get (read_index h obj) k =
     (case h_property_get h obj k of
        RefUndefined \<Rightarrow> Undefined
      | RefSet s \<Rightarrow> OwnSet (set_objs h ! s)
      | RefInherited n \<Rightarrow> Inherited n)"
  by (simp add: property_get_def h_property_get_def read_index_def split: option.splits)

lemma step_new_Set:
  assumes inv: "own_sets obj n h" and none: "map_of (index_objs h ! obj) k = None"
    and h'_def: "h' = h_property_set (snd (h_new_Set h v)) obj k (fst (h_new_Set h v))"
  shows "own_sets obj n h'" and "read_index h' obj = (read_index h obj)(k \<mapsto> [v])"
    and "unchanged_below obj n h h'"
proof -
  let ?m = "map_of (index_objs h ! obj)"
  have obj: "obj < length (index_objs h)" and n: "n \<le> length (set_objs h)"
    and range: "\<And>k s. ?m k = Some s \<Longrightarrow> n \<le> s \<and> s < length (set_objs h)"
    and inj: "\<And>k k' s. ?m k = Some s \<Longrightarrow> ?m k' = Some s \<Longrightarrow> k = k'"
    using inv unfolding own_sets_def by blast+
  have sets: "set_objs h' = set_objs h @ [[v]]"
    by (simp add: h'_def h_property_set_def h_new_Set_def)
  have props: "map_of (index_objs h' ! obj) = ?m(k \<mapsto> length (set_objs h))"
    using obj by (simp add: h'_def h_property_set_def h_new_Set_def map_of_own_assign)
  have len: "length (index_objs h') = length (index_objs h)"
    by (simp add: h'_def h_property_set_def h_new_Set_def)
  show "own_sets obj n h'"
    unfolding own_sets_def
  proof (intro conjI allI impI)
    show "obj < length (index_objs h')" using obj len by simp
    show "n \<le> length (set_objs h')" using n sets by simp
  next
    fix k' s assume "map_of (index_objs h' ! obj) k' = Some s"
    then have "s = length (set_objs h) \<or> ?m k' = Some s"
      unfolding props by (auto split: if_splits)
    then show "n \<le> s" and "s < length (set_objs h')"
      using n range sets by (auto simp: less_Suc_eq)
  next
    fix k1 k2 s
    assume a: "map_of (index_objs h' ! obj) k1 = Some s" and b: "map_of (index_objs h' ! obj) k2 = Some s"
    show "k1 = k2"
    proof (cases "s = length (set_objs h)")
      case True
      with a b range have "k1 = k" "k2 = k"
        unfolding props by (auto split: if_splits)
      then show ?thesis by simp
    next
      case False
      with a b have "?m k1 = Some s" "?m k2 = Some s"
        unfolding props by (auto split: if_splits)
      then show ?thesis by (rule inj)
    qed
  qed
  show "read_index h' obj = (read_index h obj)(k \<mapsto> [v])"
  proof
    fix k'
    show "read_index h' obj k' = ((read_index h obj)(k \<mapsto> [v])) k'"
    proof (cases "k' = k")
      case True
      then show ?thesis by (simp add: read_index_def props sets)
    next
      case False
      show ?thesis
      proof (cases "?m k'")
        case None
        with False show ?thesis by (simp add: read_index_def props)
      next
        case (Some s)
        then have "s < length (set_objs h)" using range by blast
        with False Some show ?thesis by (simp add: read_index_def props sets nth_append)
      qed
    qed
  qed
  show "unchanged_below obj n h h'"
    using n by (simp add: unchanged_below_def h'_def h_property_set_def h_new_Set_def)
qed

lemma step_Set_add:
  assumes inv: "own_sets obj n h" and some: "map_of (index_objs h ! obj) k = Some s"
    and h'_def: "h' = h_Set_add h s v"
  shows "own_sets obj n h'"
    and "read_index h' obj = (read_index h obj)(k \<mapsto> set_add (set_objs h ! s) v)"
    and "unchanged_below obj n h h'"
proof -
  let ?m = "map_of (index_objs h ! obj)"
  have range: "\<And>k s. ?m k = Some s \<Longrightarrow> n \<le> s \<and> s < length (set_objs h)"
    and inj: "\<And>k k' s. ?m k = Some s \<Longrightarrow> ?m k' = Some s \<Longrightarrow> k = k'"
    using inv unfolding own_sets_def by blast+
  have s: "n \<le> s" "s < length (set_objs h)" using range some by blast+
  show "own_sets obj n h'"
    using inv by (simp add: own_sets_def h'_def h_Set_add_def)
  show "read_index h' obj = (read_index h obj)(k \<mapsto> set_add (set_objs h ! s) v)"
  proof
    fix k'
    show "read_index h' obj k' = ((read_index h obj)(k \<mapsto> set_add (set_objs h ! s) v)) k'"
    proof (cases "k' = k")
      case True
      with some s show ?thesis by (simp add: read_index_def h'_def h_Set_add_def)
    next
      case False
      show ?thesis
      proof (cases "?m k'")
        case None
        with False show ?thesis by (simp add: read_index_def h'_def h_Set_add_def)
      next
        case (Some s')
        with some False inj have "s' \<noteq> s" by blast
        with False Some show ?thesis by (simp add: read_index_def h'_def h_Set_add_def)
      qed
    qed
  qed
  show "unchanged_below obj n h h'"
    using s by (simp add: unchanged_below_def h'_def h_Set_add_def)
qed

lemma h_forEach_entries_refines:
  assumes "own_sets obj n h"
  shows "case forEach_entries ps (read_index h obj) of
           Inl e \<Rightarrow> h_forEach_entries ps obj h = Inl e
         | Inr idx' \<Rightarrow> (\<exists>h'. h_forEach_entries ps obj h = Inr h' \<and> read_index h' obj = idx'
                            \<and> own_sets obj n h' \<and> unchanged_below obj n h h')"
  using assms
proof (induction ps arbitrary: h)
  case Nil
  then show ?case by (simp add: unchanged_below_refl)
next
  case (Cons p rest)
  obtain key val where p: "p = (key, val)" by (cases p)
  show ?case
  proof (cases "val = []")
    case True
    with p have pure: "forEach_entries (p # rest) (read_index h obj) = forEach_entries rest (read_index h obj)"
      and impl: "h_forEach_entries (p # rest) obj h = h_forEach_entries rest obj h"
      by simp_all
    show ?thesis unfolding pure impl by (rule Cons.IH [OF Cons.prems])
  next
    case False
    show ?thesis
    proof (cases "h_property_get h obj key")
      case RefUndefined
      then have none: "map_of (index_objs h ! obj) key = None"
        by (simp add: h_property_get_def split: option.splits)
      define h1 where "h1 = h_property_set (snd (h_new_Set h val)) obj key (fst (h_new_Set h val))"
      note st = step_new_Set [OF Cons.prems none h1_def]
      have pure: "forEach_entries (p # rest) (read_index h obj) = forEach_entries rest (read_index h1 obj)"
        using p False RefUndefined by (simp add: h_property_get_read_index st(2))
      have impl: "h_forEach_entries (p # rest) obj h = h_forEach_entries rest obj h1"
        using p False RefUndefined by (simp add: h1_def)
      from Cons.IH [OF st(1)] st(3) show ?thesis
        unfolding pure impl
        by (auto split: sum.splits intro: unchanged_below_trans)
    next
      case (RefSet s)
      then have some: "map_of (index_objs h ! obj) key = Some s"
        by (simp add: h_property_get_RefSet)
      define h1 where "h1 = h_Set_add h s val"
      note st = step_Set_add [OF Cons.prems some h1_def]
      have pure: "forEach_entries (p # rest) (read_index h obj) = forEach_entries rest (read_index h1 obj)"
        using p False RefSet by (simp add: h_property_get_read_index st(2))
      have impl: "h_forEach_entries (p # rest) obj h = h_forEach_entries rest obj h1"
        using p False RefSet by (simp add: h1_def)
      from Cons.IH [OF st(1)] st(3) show ?thesis
        unfolding pure impl
        by (auto split: sum.splits intro: unchanged_below_trans)
    next
      case (RefInherited m)
      with p False show ?thesis by (simp add: h_property_get_read_index)
    qed
  qed
qed

lemma h_forEach_entries_append:
  "h_forEach_entries (xs @ ys) obj h =
     (case h_forEach_entries xs obj h of Inl e \<Rightarrow> Inl e | Inr h' \<Rightarrow> h_forEach_entries ys obj h')"
proof (induction xs arbitrary: h)
  case Nil
  then show ?case by simp
next
  case (Cons p xs)
  obtain key val where p: "p = (key, val)" by (cases p)
  show ?case
    unfolding p by (simp add: Cons.IH split: reference.splits)
qed

lemma h_forEach_rules_entries:
  "h_forEach_rules rs obj h = h_forEach_entries (entries_of rs) obj h"
proof (induction rs arbitrary: h)
  case Nil
  then show ?case by (simp add: entries_of_def)
next
  case (Cons r rs)
  show ?case
    unfolding entries_of_Cons h_forEach_entries_append using Cons.IH
    by (simp split: option.splits sum.splits)
qed

lemma own_sets_new_object:
  "own_sets (length (index_objs h)) (length (set_objs h)) (snd (h_new_object h))"
  by (simp add: own_sets_def h_new_object_def)

lemma read_index_new_object:
  "read_index (snd (h_new_object h)) (length (index_objs h)) = Map.empty"
  by (simp add: read_index_def h_new_object_def)

text \<open>
  The callback on the store: it fails where the callback on values fails, and else
  returns a new object that holds the index computed on values, leaving every object of
  the store it started from as it was.
\<close>

lemma h_labelsByKeyResult_refines:
  "case labelsByKeyResult rulerRequest of
     Inl e \<Rightarrow> h_labelsByKeyResult rulerRequest h = Inl e
   | Inr idx \<Rightarrow> (\<exists>h'. h_labelsByKeyResult rulerRequest h = Inr (length (index_objs h), h')
                    \<and> read_index h' (length (index_objs h)) = idx
                    \<and> own_sets (length (index_objs h)) (length (set_objs h)) h'
                    \<and> length (index_objs h') = Suc (length (index_objs h))
                    \<and> take (length (index_objs h)) (index_objs h') = index_objs h
                    \<and> take (length (set_objs h)) (set_objs h') = set_objs h)"
proof (cases "case rulerRequest of None \<Rightarrow> None | Some req \<Rightarrow> result req")
  case None
  then show ?thesis
    using own_sets_new_object [of h] read_index_new_object [of h]
    by (simp add: labelsByKeyResult_def h_labelsByKeyResult_def Let_def h_new_object_def)
next
  case (Some cfg)
  let ?obj = "length (index_objs h)"
  let ?h0 = "snd (h_new_object h)"
  have pure: "labelsByKeyResult rulerRequest = forEach_entries (entries_of (allRules cfg)) (read_index ?h0 ?obj)"
    using Some by (simp add: labelsByKeyResult_def forEach_rules_entries read_index_new_object)
  have impl: "h_labelsByKeyResult rulerRequest h =
      (case h_forEach_entries (entries_of (allRules cfg)) ?obj ?h0 of
         Inl e \<Rightarrow> Inl e | Inr h' \<Rightarrow> Inr (?obj, h'))"
    using Some by (simp add: h_labelsByKeyResult_def Let_def h_forEach_rules_entries h_new_object_def)
  have h0: "length (index_objs ?h0) = Suc ?obj" "take ?obj (index_objs ?h0) = index_objs h"
    "set_objs ?h0 = set_objs h"
    by (simp_all add: h_new_object_def)
  from h_forEach_entries_refines [OF own_sets_new_object [of h], of "entries_of (allRules cfg)"]
  show ?thesis
    unfolding pure impl using h0
    by (auto simp: unchanged_below_def split: sum.splits)
qed

lemma read_index_unchanged:
  assumes "own_sets obj n h" and "take (length (index_objs h)) (index_objs h') = index_objs h"
    and "take (length (set_objs h)) (set_objs h') = set_objs h"
  shows "read_index h' obj = read_index h obj"
proof -
  have obj: "obj < length (index_objs h)"
    and range: "\<And>k s. map_of (index_objs h ! obj) k = Some s \<Longrightarrow> s < length (set_objs h)"
    using assms(1) unfolding own_sets_def by blast+
  have i: "index_objs h' ! obj = index_objs h ! obj"
    using obj assms(2) by (metis nth_take)
  have s: "set_objs h' ! s = set_objs h ! s" if "s < length (set_objs h)" for s
    using that assms(3) by (metis nth_take)
  show ?thesis
  proof
    fix k
    show "read_index h' obj k = read_index h obj k"
      using range [of k] s by (auto simp: read_index_def i split: option.splits)
  qed
qed

section \<open>Reading the index\<close>

lemma getValuesForLabel_own:
  "labelsByKey k = Some s \<Longrightarrow>
     getValuesForLabel labelsByKey k = map (\<lambda>item. \<lparr>opt_label = Some item, opt_value = Some item\<rparr>) s"
  by (simp add: getValuesForLabel_def mapLabelsToOptions_def property_get_def)

lemma getValuesForLabel_absent:
  "labelsByKey k = None \<Longrightarrow> k \<notin> fst ` set object_prototype \<Longrightarrow> getValuesForLabel labelsByKey k = []"
  using property_get_Undefined [of labelsByKey k]
  by (simp add: getValuesForLabel_def mapLabelsToOptions_def)

lemma forEach_rules_missing_labels:
  "labels r = None \<Longrightarrow> forEach_rules (before @ r # later) idx = forEach_rules (before @ later) idx"
  by (simp add: forEach_rules_entries entries_of_def)

lemmas run_defs =
  labelsByKeyResult_def loaded_def allRules_def property_get_def object_prototype_def set_add_def

lemma labelsByKeyResult_example:
  "labelsByKeyResult (loaded [(''ns'', [\<lparr>rules = [\<lparr>labels = Some [(''sev'', ''high'')]\<rparr>,
       \<lparr>labels = Some [(''sev'', ''low'')]\<rparr>, \<lparr>labels = Some [(''sev'', '''')]\<rparr>]\<rparr>])])
   = Inr [''sev'' \<mapsto> [''high'', ''low'']]"
  by (simp add: run_defs)

section \<open>The claims\<close>

text \<open>
  C1. The index is to map every label key to the distinct non-empty values some rule
  carries under it, for every configuration. The code does so exactly for the
  configurations in which no label with a non-empty value is named like a member of
  \<^verbatim>\<open>Object.prototype\<close> (\<open>labelsByKeyResult_membership\<close>, \<open>labelsByKeyResult_throws_iff\<close>,
  and \<open>labelsByKeyResult_example\<close> for the configuration the spec gives). On the
  configuration \<^verbatim>\<open>{ ns: [{ rules: [{ labels: { constructor: "x" } }] }] }\<close> the read
  \<^verbatim>\<open>labelsByKey["constructor"]\<close> finds the inherited function, \<^verbatim>\<open>labelEntry.add\<close> is not a
  function, and the computation throws instead of returning \<^verbatim>\<open>{ constructor: {"x"} }\<close>.
\<close>

theorem labelsByKeyResult_constructor_label:
  "labelsByKeyResult (loaded [(''ns'', [\<lparr>rules = [\<lparr>labels = Some [(''constructor'', ''x'')]\<rparr>]\<rparr>])])
   = Inl TypeError"
  by (simp add: run_defs)

text \<open>
  C2. Whatever the request, an index the computation returns has no key with an empty
  set of values.
\<close>

theorem labelsByKeyResult_no_empty_set:
  assumes "labelsByKeyResult rulerRequest = Inr idx" and "idx k = Some s"
  shows "s \<noteq> []"
proof -
  have "nonempty_sets idx"
  proof (cases "case rulerRequest of None \<Rightarrow> None | Some req \<Rightarrow> result req")
    case None
    with assms(1) have "idx = Map.empty" by (simp add: labelsByKeyResult_def)
    then show ?thesis by (simp add: nonempty_sets_empty)
  next
    case (Some cfg)
    with assms(1) have "forEach_entries (entries_of (allRules cfg)) Map.empty = Inr idx"
      by (simp add: labelsByKeyResult_def forEach_rules_entries)
    then show ?thesis using nonempty_sets_empty by (rule forEach_entries_nonempty)
  qed
  with assms(2) show ?thesis by (simp add: nonempty_sets_def)
qed

theorem labelsByKeyResult_no_empty_set_witness:
  "labelsByKeyResult (loaded [(''ns'', [\<lparr>rules = [\<lparr>labels = Some [(''sev'', ''high'')]\<rparr>,
       \<lparr>labels = Some [(''sev'', ''low'')]\<rparr>, \<lparr>labels = Some [(''sev'', '''')]\<rparr>]\<rparr>])])
     = Inr [''sev'' \<mapsto> [''high'', ''low'']]
   \<and> [''sev'' \<mapsto> [''high'', ''low'']] ''sev'' = Some [''high'', ''low'']
   \<and> [''high'', ''low''] \<noteq> ([] :: string list)"
proof -
  let ?req = "loaded [(''ns'', [\<lparr>rules = [\<lparr>labels = Some [(''sev'', ''high'')]\<rparr>,
       \<lparr>labels = Some [(''sev'', ''low'')]\<rparr>, \<lparr>labels = Some [(''sev'', '''')]\<rparr>]\<rparr>])]"
  have run: "labelsByKeyResult ?req = Inr [''sev'' \<mapsto> [''high'', ''low'']]"
    by (simp add: run_defs)
  have at: "[''sev'' \<mapsto> [''high'', ''low'']] ''sev'' = Some [''high'', ''low'']"
    by simp
  from labelsByKeyResult_no_empty_set [OF run at] run at show ?thesis by simp
qed

text \<open>
  C3. For a row of the form, the key field is reported invalid, with the message
  \<^verbatim>\<open>Required.\<close>, exactly when the key is empty and the value of the row is not; the value
  field exactly when the value is empty and the key is not; a row with both fields empty
  passes both checks.
\<close>

theorem validate_required_iff:
  assumes "index < length ls"
  shows "(validateKey ls index = Some ''Required.'') =
           (entry_key (ls ! index) = [] \<and> entry_value (ls ! index) \<noteq> [])
       \<and> (validateKey ls index = None) =
           (\<not> (entry_key (ls ! index) = [] \<and> entry_value (ls ! index) \<noteq> []))
       \<and> invalid (validateKey ls index) =
           (entry_key (ls ! index) = [] \<and> entry_value (ls ! index) \<noteq> [])
       \<and> (validateValue ls index = Some ''Required.'') =
           (entry_value (ls ! index) = [] \<and> entry_key (ls ! index) \<noteq> [])
       \<and> (validateValue ls index = None) =
           (\<not> (entry_value (ls ! index) = [] \<and> entry_key (ls ! index) \<noteq> []))
       \<and> invalid (validateValue ls index) =
           (entry_value (ls ! index) = [] \<and> entry_key (ls ! index) \<noteq> [])
       \<and> (entry_key (ls ! index) = [] \<and> entry_value (ls ! index) = [] \<longrightarrow>
            validateKey ls index = None \<and> validateValue ls index = None)"
  using assms
  by (auto simp: validateKey_def validateValue_def check_required_def register_key_def
        register_value_def field_key_def field_value_def Boolean_def invalid_def)

theorem validate_required_iff_witness:
  "validateKey [\<lparr>entry_key = '''', entry_value = ''prod''\<rparr>, \<lparr>entry_key = '''', entry_value = ''''\<rparr>,
       \<lparr>entry_key = ''env'', entry_value = ''''\<rparr>] 0 = Some ''Required.''
   \<and> validateValue [\<lparr>entry_key = '''', entry_value = ''prod''\<rparr>, \<lparr>entry_key = '''', entry_value = ''''\<rparr>,
       \<lparr>entry_key = ''env'', entry_value = ''''\<rparr>] 0 = None
   \<and> validateKey [\<lparr>entry_key = '''', entry_value = ''prod''\<rparr>, \<lparr>entry_key = '''', entry_value = ''''\<rparr>,
       \<lparr>entry_key = ''env'', entry_value = ''''\<rparr>] 1 = None
   \<and> validateValue [\<lparr>entry_key = '''', entry_value = ''prod''\<rparr>, \<lparr>entry_key = '''', entry_value = ''''\<rparr>,
       \<lparr>entry_key = ''env'', entry_value = ''''\<rparr>] 1 = None
   \<and> validateKey [\<lparr>entry_key = '''', entry_value = ''prod''\<rparr>, \<lparr>entry_key = '''', entry_value = ''''\<rparr>,
       \<lparr>entry_key = ''env'', entry_value = ''''\<rparr>] 2 = None
   \<and> validateValue [\<lparr>entry_key = '''', entry_value = ''prod''\<rparr>, \<lparr>entry_key = '''', entry_value = ''''\<rparr>,
       \<lparr>entry_key = ''env'', entry_value = ''''\<rparr>] 2 = Some ''Required.''"
proof -
  let ?ls = "[\<lparr>entry_key = '''', entry_value = ''prod''\<rparr>, \<lparr>entry_key = '''', entry_value = ''''\<rparr>,
       \<lparr>entry_key = ''env'', entry_value = ''''\<rparr>]"
  have "0 < length ?ls" "1 < length ?ls" "2 < length ?ls" by simp_all
  from this [THEN validate_required_iff] show ?thesis by simp
qed

text \<open>
  C4. Opening the value menu of a row sets \<^verbatim>\<open>selectedKey\<close> to the key that row has at
  that moment and leaves the rows alone, and the value options are then those the index
  gives for that key. After the key of the row was set to \<open>newKey\<close>, that is \<open>newKey\<close>;
  after the key of another row was edited last, it is still the key of the row whose menu
  is opened, not the key edited last.
\<close>

theorem onOpenMenu_selects_current_key:
  assumes "index < length (form_labels st)"
  shows "(\<exists>st'. onOpenMenu st index = Some st'
            \<and> selectedKey st' = entry_key (form_labels st ! index)
            \<and> form_labels st' = form_labels st
            \<and> current_values labelsByKey st' =
                getValuesForLabel labelsByKey (entry_key (form_labels st ! index)))
       \<and> (\<exists>st1 st2. onChange_key st index newKey = Some st1 \<and> onOpenMenu st1 index = Some st2
            \<and> selectedKey st2 = newKey
            \<and> current_values labelsByKey st2 = getValuesForLabel labelsByKey newKey)
       \<and> (\<forall>other. other < length (form_labels st) \<and> other \<noteq> index \<longrightarrow>
            (\<exists>st1 st2. onChange_key st other newKey = Some st1 \<and> onOpenMenu st1 index = Some st2
              \<and> selectedKey st1 = newKey
              \<and> selectedKey st2 = entry_key (form_labels st ! index)
              \<and> current_values labelsByKey st2 =
                  getValuesForLabel labelsByKey (entry_key (form_labels st ! index))))"
  using assms
  by (simp add: onOpenMenu_def onChange_key_def current_values_def)

theorem onOpenMenu_selects_current_key_witness:
  "onChange_key (initial_form [\<lparr>entry_key = ''env'', entry_value = ''''\<rparr>, \<lparr>entry_key = '''', entry_value = ''''\<rparr>])
      0 ''team''
     = Some \<lparr>form_labels = [\<lparr>entry_key = ''team'', entry_value = ''''\<rparr>, \<lparr>entry_key = '''', entry_value = ''''\<rparr>],
             selectedKey = ''team''\<rparr>
   \<and> onOpenMenu \<lparr>form_labels = [\<lparr>entry_key = ''team'', entry_value = ''''\<rparr>, \<lparr>entry_key = '''', entry_value = ''''\<rparr>],
             selectedKey = ''team''\<rparr> 0
     = Some \<lparr>form_labels = [\<lparr>entry_key = ''team'', entry_value = ''''\<rparr>, \<lparr>entry_key = '''', entry_value = ''''\<rparr>],
             selectedKey = ''team''\<rparr>
   \<and> current_values [''team'' \<mapsto> [''core'', ''infra''], ''sev'' \<mapsto> [''high'']]
        \<lparr>form_labels = [\<lparr>entry_key = ''team'', entry_value = ''''\<rparr>, \<lparr>entry_key = '''', entry_value = ''''\<rparr>],
             selectedKey = ''team''\<rparr>
     = [\<lparr>opt_label = Some ''core'', opt_value = Some ''core''\<rparr>,
        \<lparr>opt_label = Some ''infra'', opt_value = Some ''infra''\<rparr>]
   \<and> onChange_key (initial_form [\<lparr>entry_key = ''env'', entry_value = ''''\<rparr>, \<lparr>entry_key = '''', entry_value = ''''\<rparr>])
      1 ''team''
     = Some \<lparr>form_labels = [\<lparr>entry_key = ''env'', entry_value = ''''\<rparr>, \<lparr>entry_key = ''team'', entry_value = ''''\<rparr>],
             selectedKey = ''team''\<rparr>
   \<and> onOpenMenu \<lparr>form_labels = [\<lparr>entry_key = ''env'', entry_value = ''''\<rparr>, \<lparr>entry_key = ''team'', entry_value = ''''\<rparr>],
             selectedKey = ''team''\<rparr> 0
     = Some \<lparr>form_labels = [\<lparr>entry_key = ''env'', entry_value = ''''\<rparr>, \<lparr>entry_key = ''team'', entry_value = ''''\<rparr>],
             selectedKey = ''env''\<rparr>"
proof -
  let ?st = "initial_form [\<lparr>entry_key = ''env'', entry_value = ''''\<rparr>, \<lparr>entry_key = '''', entry_value = ''''\<rparr>]"
  let ?idx = "[''team'' \<mapsto> [''core'', ''infra''], ''sev'' \<mapsto> [''high'']]"
  have h: "0 < length (form_labels ?st)"
    by (simp add: initial_form_def)
  from onOpenMenu_selects_current_key [OF h, of ?idx "''team''"]
  show ?thesis
    by (simp add: initial_form_def onOpenMenu_def onChange_key_def current_values_def
          getValuesForLabel_def mapLabelsToOptions_def property_get_def)
qed

text \<open>
  C5. Choosing a key in a row puts the new key into that row, keeps the row's value and
  every other row, and sets \<^verbatim>\<open>selectedKey\<close> to the new key, so that the value options are
  at once those of the new key.
\<close>

theorem onChange_key_sets_key_and_selectedKey:
  assumes "index < length (form_labels st)"
  shows "\<exists>st'. onChange_key st index newKey = Some st'
           \<and> length (form_labels st') = length (form_labels st)
           \<and> entry_key (form_labels st' ! index) = newKey
           \<and> entry_value (form_labels st' ! index) = entry_value (form_labels st ! index)
           \<and> (\<forall>j. j \<noteq> index \<longrightarrow> form_labels st' ! j = form_labels st ! j)
           \<and> selectedKey st' = newKey
           \<and> current_values labelsByKey st' = getValuesForLabel labelsByKey newKey"
  using assms
  by (simp add: onChange_key_def current_values_def)

theorem onChange_key_sets_key_and_selectedKey_witness:
  "onChange_key \<lparr>form_labels = [\<lparr>entry_key = ''env'', entry_value = ''prod''\<rparr>, \<lparr>entry_key = '''', entry_value = ''x''\<rparr>],
                 selectedKey = ''env''\<rparr> 1 ''team''
     = Some \<lparr>form_labels = [\<lparr>entry_key = ''env'', entry_value = ''prod''\<rparr>, \<lparr>entry_key = ''team'', entry_value = ''x''\<rparr>],
             selectedKey = ''team''\<rparr>
   \<and> current_values [''team'' \<mapsto> [''core'']]
        \<lparr>form_labels = [\<lparr>entry_key = ''env'', entry_value = ''prod''\<rparr>, \<lparr>entry_key = ''team'', entry_value = ''x''\<rparr>],
             selectedKey = ''team''\<rparr>
     = [\<lparr>opt_label = Some ''core'', opt_value = Some ''core''\<rparr>]"
proof -
  let ?st = "\<lparr>form_labels = [\<lparr>entry_key = ''env'', entry_value = ''prod''\<rparr>, \<lparr>entry_key = '''', entry_value = ''x''\<rparr>],
                 selectedKey = ''env''\<rparr>"
  have h: "1 < length (form_labels ?st)" by simp
  from onChange_key_sets_key_and_selectedKey [OF h, of "''team''" "[''team'' \<mapsto> [''core'']]"]
  show ?thesis
    by (simp add: onChange_key_def current_values_def getValuesForLabel_def mapLabelsToOptions_def
          property_get_def)
qed

text \<open>
  C6. While the store has no request for the data source, while the request has no
  result, and for a configuration without namespaces, the index is empty.
\<close>

theorem labelsByKeyResult_not_loaded:
  "labelsByKeyResult None = Inr Map.empty
   \<and> labelsByKeyResult (Some \<lparr>loading = l, result = None\<rparr>) = Inr Map.empty
   \<and> labelsByKeyResult (Some \<lparr>loading = l, result = Some []\<rparr>) = Inr Map.empty"
  by (simp add: labelsByKeyResult_def allRules_def)

text \<open>
  C7. Building the index is to have no error condition, a rule without labels adding
  nothing. The guard \<^verbatim>\<open>if (rule.labels)\<close> does skip such a rule
  (\<open>forEach_rules_missing_labels\<close>), but the computation as a whole can throw: on
  \<^verbatim>\<open>{ ns: [{ rules: [{}, { labels: { constructor: "x" } }] }] }\<close>, a configuration with a
  rule that has no labels, it ends in a \<^verbatim>\<open>TypeError\<close>.
\<close>

theorem labelsByKeyResult_missing_labels_then_constructor:
  "labelsByKeyResult (loaded [(''ns'', [\<lparr>rules = [\<lparr>labels = None\<rparr>,
       \<lparr>labels = Some [(''constructor'', ''x'')]\<rparr>]\<rparr>])]) = Inl TypeError"
  by (simp add: run_defs)

text \<open>
  C8. Building the index is deterministic and idempotent. On any store, whatever index
  objects and sets earlier runs have left in it, the callback fails exactly where the
  callback on values fails and else returns a new object holding exactly
  \<open>labelsByKeyResult\<close> of the request; the \<^verbatim>\<open>loading\<close> flag of the request and the store
  make no difference to that outcome; the objects of the store it started from are as
  they were; and a second run on the same request, on the store the first has left,
  returns another object with the same keys and the same values under each key, the
  first index still reading as before.
\<close>

theorem h_labelsByKeyResult_fresh_rebuild:
  "read_outcome (h_labelsByKeyResult rulerRequest h) = labelsByKeyResult rulerRequest
   \<and> read_outcome (h_labelsByKeyResult (Some \<lparr>loading = l, result = c\<rparr>) h)
       = read_outcome (h_labelsByKeyResult (Some \<lparr>loading = l', result = c\<rparr>) h')
   \<and> (\<forall>obj h1. h_labelsByKeyResult rulerRequest h = Inr (obj, h1) \<longrightarrow>
          obj = length (index_objs h)
        \<and> take (length (index_objs h)) (index_objs h1) = index_objs h
        \<and> take (length (set_objs h)) (set_objs h1) = set_objs h
        \<and> (\<forall>obj2 h2. h_labelsByKeyResult rulerRequest h1 = Inr (obj2, h2) \<longrightarrow>
               obj2 \<noteq> obj
             \<and> read_index h2 obj2 = read_index h1 obj
             \<and> read_index h2 obj = read_index h1 obj))"
proof (intro conjI allI impI)
  show first: "read_outcome (h_labelsByKeyResult r s) = labelsByKeyResult r" for r s
    using h_labelsByKeyResult_refines [of r s]
    by (auto simp: read_outcome_def split: sum.splits)
  have "labelsByKeyResult (Some \<lparr>loading = l, result = c\<rparr>)
      = labelsByKeyResult (Some \<lparr>loading = l', result = c\<rparr>)"
    by (simp add: labelsByKeyResult_def)
  then show "read_outcome (h_labelsByKeyResult (Some \<lparr>loading = l, result = c\<rparr>) h)
       = read_outcome (h_labelsByKeyResult (Some \<lparr>loading = l', result = c\<rparr>) h')"
    by (simp add: first)
next
  fix obj h1
  assume run1: "h_labelsByKeyResult rulerRequest h = Inr (obj, h1)"
  then obtain idx where idx: "labelsByKeyResult rulerRequest = Inr idx"
    using h_labelsByKeyResult_refines [of rulerRequest h]
    by (cases "labelsByKeyResult rulerRequest") auto
  with run1 h_labelsByKeyResult_refines [of rulerRequest h]
  have obj: "obj = length (index_objs h)"
    and r1: "read_index h1 obj = idx"
    and own: "own_sets obj (length (set_objs h)) h1"
    and len1: "length (index_objs h1) = Suc (length (index_objs h))"
    and fr1: "take (length (index_objs h)) (index_objs h1) = index_objs h"
      "take (length (set_objs h)) (set_objs h1) = set_objs h"
    by auto
  show "obj = length (index_objs h)" by (rule obj)
  show "take (length (index_objs h)) (index_objs h1) = index_objs h" by (rule fr1(1))
  show "take (length (set_objs h)) (set_objs h1) = set_objs h" by (rule fr1(2))
  fix obj2 h2
  assume run2: "h_labelsByKeyResult rulerRequest h1 = Inr (obj2, h2)"
  with idx h_labelsByKeyResult_refines [of rulerRequest h1]
  have obj2: "obj2 = length (index_objs h1)"
    and r2: "read_index h2 obj2 = idx"
    and fr2: "take (length (index_objs h1)) (index_objs h2) = index_objs h1"
      "take (length (set_objs h1)) (set_objs h2) = set_objs h1"
    by auto
  show "obj2 \<noteq> obj" using obj obj2 len1 by simp
  show "read_index h2 obj2 = read_index h1 obj" using r1 r2 by simp
  show "read_index h2 obj = read_index h1 obj"
    using own fr2 by (rule read_index_unchanged)
qed

theorem h_labelsByKeyResult_fresh_rebuild_witness:
  "h_labelsByKeyResult
      (loaded [(''ns'', [\<lparr>rules = [\<lparr>labels = Some [(''sev'', ''high'')]\<rparr>,
         \<lparr>labels = Some [(''sev'', ''low'')]\<rparr>, \<lparr>labels = Some [(''sev'', '''')]\<rparr>]\<rparr>])])
      \<lparr>index_objs = [[(''team'', 0)]], set_objs = [[''core'']]\<rparr>
     = Inr (1, \<lparr>index_objs = [[(''team'', 0)], [(''sev'', 1)]],
                set_objs = [[''core''], [''high'', ''low'']]\<rparr>)
   \<and> h_labelsByKeyResult
      (loaded [(''ns'', [\<lparr>rules = [\<lparr>labels = Some [(''sev'', ''high'')]\<rparr>,
         \<lparr>labels = Some [(''sev'', ''low'')]\<rparr>, \<lparr>labels = Some [(''sev'', '''')]\<rparr>]\<rparr>])])
      \<lparr>index_objs = [[(''team'', 0)], [(''sev'', 1)]],
       set_objs = [[''core''], [''high'', ''low'']]\<rparr>
     = Inr (2, \<lparr>index_objs = [[(''team'', 0)], [(''sev'', 1)], [(''sev'', 2)]],
                set_objs = [[''core''], [''high'', ''low''], [''high'', ''low'']]\<rparr>)
   \<and> read_index \<lparr>index_objs = [[(''team'', 0)], [(''sev'', 1)], [(''sev'', 2)]],
                  set_objs = [[''core''], [''high'', ''low''], [''high'', ''low'']]\<rparr> 2
     = read_index \<lparr>index_objs = [[(''team'', 0)], [(''sev'', 1)]],
                    set_objs = [[''core''], [''high'', ''low'']]\<rparr> 1
   \<and> read_index \<lparr>index_objs = [[(''team'', 0)], [(''sev'', 1)], [(''sev'', 2)]],
                  set_objs = [[''core''], [''high'', ''low''], [''high'', ''low'']]\<rparr> 2 ''sev''
     = Some [''high'', ''low'']
   \<and> read_index \<lparr>index_objs = [[(''team'', 0)], [(''sev'', 1)], [(''sev'', 2)]],
                  set_objs = [[''core''], [''high'', ''low''], [''high'', ''low'']]\<rparr> 0 ''team''
     = Some [''core'']"
proof -
  let ?req = "loaded [(''ns'', [\<lparr>rules = [\<lparr>labels = Some [(''sev'', ''high'')]\<rparr>,
         \<lparr>labels = Some [(''sev'', ''low'')]\<rparr>, \<lparr>labels = Some [(''sev'', '''')]\<rparr>]\<rparr>])]"
  let ?h = "\<lparr>index_objs = [[(''team'', 0)]], set_objs = [[''core'']]\<rparr>"
  let ?h1 = "\<lparr>index_objs = [[(''team'', 0)], [(''sev'', 1)]],
       set_objs = [[''core''], [''high'', ''low'']]\<rparr>"
  let ?h2 = "\<lparr>index_objs = [[(''team'', 0)], [(''sev'', 1)], [(''sev'', 2)]],
                set_objs = [[''core''], [''high'', ''low''], [''high'', ''low'']]\<rparr>"
  note defs = h_labelsByKeyResult_def Let_def h_new_object_def loaded_def allRules_def
    h_property_get_def object_prototype_def h_new_Set_def h_property_set_def h_Set_add_def set_add_def
  have run1: "h_labelsByKeyResult ?req ?h = Inr (1, ?h1)"
    by (simp add: defs)
  have run2: "h_labelsByKeyResult ?req ?h1 = Inr (2, ?h2)"
    by (simp add: defs)
  from h_labelsByKeyResult_fresh_rebuild [of ?req ?h] run1 run2
  have "read_index ?h2 2 = read_index ?h1 1" by blast
  with run1 run2 show ?thesis
    by (simp add: read_index_def)
qed

text \<open>
  C9. The options for a key are to be the values the index holds under it, in the set's
  order, and none for a key the index does not hold. The first holds
  (\<open>getValuesForLabel_own\<close>), and so does the second for a key that names no member of
  \<^verbatim>\<open>Object.prototype\<close> (\<open>getValuesForLabel_absent\<close>). For the key \<^verbatim>\<open>constructor\<close> and the
  empty index, \<^verbatim>\<open>labelsByKey[key]\<close> is the inherited function of length 1, and the result
  is one option whose label and value are \<^verbatim>\<open>undefined\<close>, not the empty sequence.
\<close>

theorem getValuesForLabel_constructor:
  "getValuesForLabel Map.empty ''constructor'' = [\<lparr>opt_label = None, opt_value = None\<rparr>]"
  by (simp add: getValuesForLabel_def mapLabelsToOptions_def property_get_def object_prototype_def)

text \<open>
  C10. Of the handlers of the component, only the key dropdown's \<^verbatim>\<open>onChange\<close> and the
  value dropdown's \<^verbatim>\<open>onOpenMenu\<close> can change \<^verbatim>\<open>selectedKey\<close>. The value dropdown's
  \<^verbatim>\<open>onChange\<close> leaves it as it is, writes the new value into its row, and keeps that
  row's key and every other row.
\<close>

theorem onChange_value_frame:
  assumes "handle st ev = Some st'"
  shows "(selectedKey st' = selectedKey st \<or> (\<exists>i k. ev = KeyChange i k) \<or> (\<exists>i. ev = OpenMenu i))
       \<and> (\<forall>i v. ev = ValueChange i v \<longrightarrow>
              selectedKey st' = selectedKey st
            \<and> length (form_labels st') = length (form_labels st)
            \<and> entry_value (form_labels st' ! i) = v
            \<and> entry_key (form_labels st' ! i) = entry_key (form_labels st ! i)
            \<and> (\<forall>j. j \<noteq> i \<longrightarrow> form_labels st' ! j = form_labels st ! j))"
proof (cases ev)
  case (KeyChange i k)
  then show ?thesis by simp
next
  case (ValueChange i v)
  with assms show ?thesis
    by (auto simp: onChange_value_def split: if_splits)
next
  case (OpenMenu i)
  then show ?thesis by simp
next
  case (Remove i)
  with assms show ?thesis
    by (auto simp: remove_label_def split: if_splits)
next
  case Add
  with assms show ?thesis
    by (auto simp: append_label_def)
qed

theorem onChange_value_frame_witness:
  "handle \<lparr>form_labels = [\<lparr>entry_key = ''env'', entry_value = ''''\<rparr>, \<lparr>entry_key = ''team'', entry_value = ''core''\<rparr>],
           selectedKey = ''team''\<rparr> (ValueChange 0 ''prod'')
     = Some \<lparr>form_labels = [\<lparr>entry_key = ''env'', entry_value = ''prod''\<rparr>, \<lparr>entry_key = ''team'', entry_value = ''core''\<rparr>],
             selectedKey = ''team''\<rparr>
   \<and> selectedKey \<lparr>form_labels = [\<lparr>entry_key = ''env'', entry_value = ''prod''\<rparr>, \<lparr>entry_key = ''team'', entry_value = ''core''\<rparr>],
             selectedKey = ''team''\<rparr>
     = selectedKey \<lparr>form_labels = [\<lparr>entry_key = ''env'', entry_value = ''''\<rparr>, \<lparr>entry_key = ''team'', entry_value = ''core''\<rparr>],
           selectedKey = ''team''\<rparr>"
proof -
  let ?st = "\<lparr>form_labels = [\<lparr>entry_key = ''env'', entry_value = ''''\<rparr>, \<lparr>entry_key = ''team'', entry_value = ''core''\<rparr>],
           selectedKey = ''team''\<rparr>"
  let ?st' = "\<lparr>form_labels = [\<lparr>entry_key = ''env'', entry_value = ''prod''\<rparr>, \<lparr>entry_key = ''team'', entry_value = ''core''\<rparr>],
             selectedKey = ''team''\<rparr>"
  have h: "handle ?st (ValueChange 0 ''prod'') = Some ?st'"
    by (simp add: onChange_value_def)
  from onChange_value_frame [OF h] h show ?thesis by simp
qed

end
